theory Spec2Isabelle
  imports Main
begin

section \<open>Data model of \<^verbatim>\<open>src/main.go\<close>\<close>

text \<open>
  The Go structs become records with the source's field names. Three structs share the
  field names \<open>Id\<close> and \<open>TypeName\<close>, so these selectors are written qualified
  (\<open>Entry.Id\<close>, \<open>Component.Id\<close>, \<open>DirectReference.Id\<close>). Go's \<^verbatim>\<open>int\<close> fields are only
  compared for equality, never computed with, so they are modelled as \<open>int\<close>. A Go
  \<^verbatim>\<open>string\<close> is a sequence of bytes, which is what \<open>string\<close> is here.
\<close>

record DirectReference =
  Id :: int
  TypeName :: string
  DependencyType :: "int list"

record Entry =
  Uuid :: string
  Id :: int
  ParentId :: int
  Name :: string
  TypeName :: string
  IsFolder :: bool
  DirectReferences :: "DirectReference list"
  SortOrder :: int

text \<open>
  A \<^verbatim>\<open>*Component\<close> is an address. The objects live in a heap, a list indexed by address;
  \<^verbatim>\<open>&Component{...}\<close> allocates the next free address, the length of the heap.
  \<open>Dependencies\<close> and \<open>Dependents\<close> are slices of pointers, hence lists of addresses.
  \<^verbatim>\<open>map[int]*Component\<close> is a partial map from identifiers to addresses.
\<close>

type_synonym addr = nat

record Component =
  Id :: int
  Name :: string
  TypeName :: string
  Dependencies :: "addr list"
  Dependents :: "addr list"

type_synonym heap = "Component list"

type_synonym store = "int \<rightharpoonup> addr"

datatype error = NilPointerDereference

section \<open>Constants\<close>

definition IGNORE_WITH_PARENT_ID :: "int list" where
  "IGNORE_WITH_PARENT_ID =
     [24200, 24225, 24532, 25061, 25083, 24413, 24374, 24738, 25211, 230, 23795]"

definition MeasureSheet :: string where
  "MeasureSheet = ''MeasureSheet''"

section \<open>Preprocess\<close>

text \<open>\<^verbatim>\<open>slices.Contains\<close>: a linear search for an equal element.\<close>

fun Contains :: "int list \<Rightarrow> int \<Rightarrow> bool" where
  "Contains [] v = False"
| "Contains (x # xs) v = (if v = x then True else Contains xs v)"

text \<open>
  The loop of \<^verbatim>\<open>Preprocess\<close>, with the slice \<^verbatim>\<open>preprocessed\<close> as accumulator. Each
  \<^verbatim>\<open>continue\<close> is a branch that goes on with the accumulator unchanged; the checks come
  in the order of the source.
\<close>

fun Preprocess_loop :: "Entry list \<Rightarrow> Entry list \<Rightarrow> Entry list" where
  "Preprocess_loop [] preprocessed = preprocessed"
| "Preprocess_loop (entry # entries) preprocessed =
     (if IsFolder entry then Preprocess_loop entries preprocessed
      else if length (DirectReferences entry) = 0 then Preprocess_loop entries preprocessed
      else if Contains IGNORE_WITH_PARENT_ID (ParentId entry)
        then Preprocess_loop entries preprocessed
      else if Entry.TypeName entry \<noteq> MeasureSheet then Preprocess_loop entries preprocessed
      else Preprocess_loop entries (preprocessed @ [entry]))"

definition Preprocess :: "Entry list \<Rightarrow> Entry list" where
  "Preprocess entries = Preprocess_loop entries []"

section \<open>Components\<close>

definition AsComponent :: "Entry \<Rightarrow> Component" where
  "AsComponent e =
     \<lparr>Component.Id = Entry.Id e, Name = Entry.Name e, TypeName = Entry.TypeName e,
      Dependencies = [], Dependents = []\<rparr>"

text \<open>
  \<^verbatim>\<open>AddDependency\<close> and \<open>AddDependent\<close> mutate the object their receiver points to: the
  heap is updated at the receiver's address \<open>c\<close>.
\<close>

definition AddDependency :: "heap \<Rightarrow> addr \<Rightarrow> addr \<Rightarrow> heap" where
  "AddDependency h c dep = h[c := (h ! c)\<lparr>Dependencies := Dependencies (h ! c) @ [dep]\<rparr>]"

definition AddDependent :: "heap \<Rightarrow> addr \<Rightarrow> addr \<Rightarrow> heap" where
  "AddDependent h c dep = h[c := (h ! c)\<lparr>Dependents := Dependents (h ! c) @ [dep]\<rparr>]"

section \<open>Short names\<close>

text \<open>
  \<^verbatim>\<open>NAME_REGEX\<close> is \<^verbatim>\<open>^([0-9\.]+).*\<close>. The regular-expression engine belongs to Go's
  standard library, not to this repository; \<open>FindStringSubmatch\<close> below is its result for
  this one pattern. The group is greedy: it takes every leading byte that is a digit or
  a dot, and the match fails when there is none. What follows, \<^verbatim>\<open>.*\<close>, takes the rest of
  the line (\<^verbatim>\<open>.\<close> does not match a newline) and can match nothing, so it never makes the
  group give a byte back. The result is empty when nothing matches, and otherwise holds
  the whole match followed by the group.
\<close>

definition is_code_char :: "char \<Rightarrow> bool" where
  "is_code_char ch = (ch \<in> set ''0123456789.'')"

definition FindStringSubmatch :: "string \<Rightarrow> string list" where
  "FindStringSubmatch s =
     (let grp = takeWhile is_code_char s;
          rest = takeWhile (\<lambda>ch. ch \<noteq> CHR 0x0A) (dropWhile is_code_char s)
      in if grp = [] then [] else [grp @ rest, grp])"

definition ShortName :: "Component \<Rightarrow> string" where
  "ShortName c =
     (let matches = FindStringSubmatch (Component.Name c)
      in if length matches \<ge> 2 then matches ! 1 else Component.Name c)"

section \<open>Diagrams\<close>

text \<open>\<^verbatim>\<open>fmt.Sprintf("'%s' -> '%s'", a, b)\<close>.\<close>

definition Sprintf_edge :: "string \<Rightarrow> string \<Rightarrow> string" where
  "Sprintf_edge a b = [CHR 0x27] @ a @ [CHR 0x27] @ '' -> '' @ [CHR 0x27] @ b @ [CHR 0x27]"

text \<open>\<^verbatim>\<open>strings.Join\<close>.\<close>

fun Join :: "string list \<Rightarrow> string \<Rightarrow> string" where
  "Join [] sep = []"
| "Join [x] sep = x"
| "Join (x # y # ys) sep = x @ sep @ Join (y # ys) sep"

definition newline :: string where
  "newline = [CHR 0x0A]"

text \<open>
  The loops of \<^verbatim>\<open>UpstreamDiagram\<close> and \<^verbatim>\<open>DownstreamDiagram\<close> over the pointers of a
  collection, with the slice \<^verbatim>\<open>relations\<close> as accumulator. \<open>h ! p\<close> dereferences \<open>p\<close>.
\<close>

fun Upstream_loop :: "heap \<Rightarrow> Component \<Rightarrow> addr list \<Rightarrow> string list \<Rightarrow> string list" where
  "Upstream_loop h c [] relations = relations"
| "Upstream_loop h c (p # ps) relations =
     (let dep = h ! p in
      if Component.TypeName dep \<noteq> MeasureSheet then Upstream_loop h c ps relations
      else if Component.Id dep = Component.Id c then Upstream_loop h c ps relations
      else Upstream_loop h c ps (relations @ [Sprintf_edge (ShortName dep) (ShortName c)]))"

definition UpstreamDiagram :: "heap \<Rightarrow> Component \<Rightarrow> string" where
  "UpstreamDiagram h c = Join (Upstream_loop h c (Dependencies c) []) newline"

fun Downstream_loop :: "heap \<Rightarrow> Component \<Rightarrow> addr list \<Rightarrow> string list \<Rightarrow> string list" where
  "Downstream_loop h c [] relations = relations"
| "Downstream_loop h c (p # ps) relations =
     (let dep = h ! p in
      if Component.TypeName dep \<noteq> MeasureSheet then Downstream_loop h c ps relations
      else if Component.Id dep = Component.Id c then Downstream_loop h c ps relations
      else Downstream_loop h c ps (relations @ [Sprintf_edge (ShortName c) (ShortName dep)]))"

definition DownstreamDiagram :: "heap \<Rightarrow> Component \<Rightarrow> string" where
  "DownstreamDiagram h c = Join (Downstream_loop h c (Dependents c) []) newline"

definition FullDiagram :: "heap \<Rightarrow> Component \<Rightarrow> string" where
  "FullDiagram h c = UpstreamDiagram h c @ newline @ DownstreamDiagram h c"

section \<open>ResolveRelations\<close>

text \<open>
  First loop: one new object per entry, stored under the entry's identifier. A later
  entry with the same identifier replaces the pointer; the earlier object stays in the
  heap, unreachable.
\<close>

fun materialize :: "Entry list \<Rightarrow> heap \<Rightarrow> store \<Rightarrow> heap \<times> store" where
  "materialize [] h s = (h, s)"
| "materialize (entry # entries) h s =
     materialize entries (h @ [AsComponent entry]) (s(Entry.Id entry \<mapsto> length h))"

text \<open>
  Second loop, inner part: the references of one entry with identifier \<open>eid\<close>. A lookup
  of a missing key gives Go's nil pointer; \<^verbatim>\<open>store[entry.Id].AddDependency(...)\<close> on a nil
  receiver would panic when it reads the receiver's field, which is the error branch.
  The second call reads the heap the first call has written.
\<close>

fun wire_refs :: "store \<Rightarrow> int \<Rightarrow> DirectReference list \<Rightarrow> heap \<Rightarrow> error + heap" where
  "wire_refs s eid [] h = Inr h"
| "wire_refs s eid (ref # refs) h =
     (case s (DirectReference.Id ref) of
        None \<Rightarrow> wire_refs s eid refs h
      | Some target \<Rightarrow>
          (case s eid of
             None \<Rightarrow> Inl NilPointerDereference
           | Some self \<Rightarrow>
               wire_refs s eid refs (AddDependent (AddDependency h self target) target self)))"

fun wire_entries :: "store \<Rightarrow> Entry list \<Rightarrow> heap \<Rightarrow> error + heap" where
  "wire_entries s [] h = Inr h"
| "wire_entries s (entry # entries) h =
     (case wire_refs s (Entry.Id entry) (DirectReferences entry) h of
        Inl e \<Rightarrow> Inl e
      | Inr h' \<Rightarrow> wire_entries s entries h')"

text \<open>
  Third loop. Go visits the keys of a map in an unspecified order, each key once, and a
  key deleted before it is reached is not visited. \<open>prune_loop\<close> takes the order as
  a list of keys and skips a key that is no longer in the map. The loop deletes the key
  \<^verbatim>\<open>comp.Id\<close> read from the object, as the source does.
\<close>

definition isolated :: "Component \<Rightarrow> bool" where
  "isolated c = (length (Dependents c) = 0 \<and> length (Dependencies c) = 0)"

fun prune_loop :: "heap \<Rightarrow> int list \<Rightarrow> store \<Rightarrow> store" where
  "prune_loop h [] s = s"
| "prune_loop h (k # ks) s =
     (case s k of
        None \<Rightarrow> prune_loop h ks s
      | Some p \<Rightarrow>
          (if isolated (h ! p) then prune_loop h ks (s(Component.Id (h ! p) := None))
           else prune_loop h ks s))"

text \<open>
  The first two loops together: the graph before pruning.
\<close>

definition wire :: "Entry list \<Rightarrow> error + heap \<times> store" where
  "wire entries =
     (case materialize entries [] Map.empty of
        (h, s) \<Rightarrow>
          (case wire_entries s entries h of
             Inl e \<Rightarrow> Inl e
           | Inr h' \<Rightarrow> Inr (h', s)))"

text \<open>
  The keys of the map after the first loop are the identifiers of the entries; the
  order chosen here for the third loop is their order of first appearance. Lemma
  \<open>prune_loop_any_order\<close> shows that every other order gives the same map.
\<close>

definition ResolveRelations :: "Entry list \<Rightarrow> error + heap \<times> store" where
  "ResolveRelations entries =
     (case wire entries of
        Inl e \<Rightarrow> Inl e
      | Inr (h, s) \<Rightarrow> Inr (h, prune_loop h (remdups (map Entry.Id entries)) s))"

section \<open>Vocabulary of the proofs\<close>

text \<open>
  The map and the heap agree: every pointer in the map is allocated, and the object it
  points to carries the key as its identifier.
\<close>

definition store_ok :: "heap \<Rightarrow> store \<Rightarrow> bool" where
  "store_ok h s = (\<forall>k a. s k = Some a \<longrightarrow> a < length h \<and> Component.Id (h ! a) = k)"

section \<open>Example input\<close>

text \<open>
  Three measure sheets: the first refers to the second and to itself, the second to the
  first and to an identifier that is not in the input, the third only to an identifier
  that is not in the input. \<open>example_heap\<close> is the heap that \<open>ResolveRelations\<close> builds
  from them (lemma \<open>example_wire\<close>).
\<close>

definition sheet :: "int \<Rightarrow> string \<Rightarrow> int list \<Rightarrow> Entry" where
  "sheet i n targets =
     \<lparr>Uuid = [], Id = i, ParentId = 0, Name = n, TypeName = ''MeasureSheet'', IsFolder = False,
      DirectReferences =
        map (\<lambda>t. \<lparr>DirectReference.Id = t, TypeName = ''MeasureSheet'', DependencyType = []\<rparr>) targets,
      SortOrder = 0\<rparr>"

definition example_entries :: "Entry list" where
  "example_entries = [sheet 1 ''1.0 A'' [2, 1], sheet 2 ''2.0 B'' [1, 7], sheet 3 ''3.0 C'' [9]]"

definition example_heap :: heap where
  "example_heap =
     [\<lparr>Component.Id = 1, Name = ''1.0 A'', TypeName = ''MeasureSheet'',
       Dependencies = [1, 0], Dependents = [0, 1]\<rparr>,
      \<lparr>Component.Id = 2, Name = ''2.0 B'', TypeName = ''MeasureSheet'',
       Dependencies = [0], Dependents = [0]\<rparr>,
      \<lparr>Component.Id = 3, Name = ''3.0 C'', TypeName = ''MeasureSheet'',
       Dependencies = [], Dependents = []\<rparr>]"


text \<open>
  The components that can be reached from the one at address \<open>a\<close> by following the
  pointers of the two collections.
\<close>

inductive reachable :: "heap \<Rightarrow> addr \<Rightarrow> addr \<Rightarrow> bool" for h :: heap where
  reachable_refl: "reachable h a a"
| reachable_step:
    "reachable h a b \<Longrightarrow> p \<in> set (Dependencies (h ! b)) \<union> set (Dependents (h ! b)) \<Longrightarrow>
     reachable h a p"


text \<open>
  Two inputs with a measure sheet that refers to itself: in \<open>loop_entries\<close> it is alone
  (its second reference has no target in the input), in \<open>shared_entries\<close> a second sheet
  refers to it as well. \<open>loop_heap\<close> and \<open>shared_heap\<close> are the heaps built from them
  (lemmas \<open>loop_run\<close> and \<open>shared_run\<close>).
\<close>

definition shared_entries :: "Entry list" where
  "shared_entries = [sheet 1 ''1.0 A'' [1], sheet 2 ''2.0 B'' [1]]"

definition shared_heap :: heap where
  "shared_heap =
     [\<lparr>Component.Id = 1, Name = ''1.0 A'', TypeName = ''MeasureSheet'',
       Dependencies = [0], Dependents = [0, 1]\<rparr>,
      \<lparr>Component.Id = 2, Name = ''2.0 B'', TypeName = ''MeasureSheet'',
       Dependencies = [0], Dependents = []\<rparr>]"

definition loop_entries :: "Entry list" where
  "loop_entries = [sheet 1 ''1.0 A'' [1, 5]]"

definition loop_heap :: heap where
  "loop_heap =
     [\<lparr>Component.Id = 1, Name = ''1.0 A'', TypeName = ''MeasureSheet'',
       Dependencies = [0], Dependents = [0]\<rparr>]"

section \<open>The filter\<close>

lemma Contains_iff: "Contains xs v \<longleftrightarrow> v \<in> set xs"
  by (induction xs) auto

lemma Preprocess_loop_filter:
  "Preprocess_loop entries acc =
     acc @ filter (\<lambda>e. \<not> IsFolder e \<and> DirectReferences e \<noteq> []
                      \<and> ParentId e \<notin> set IGNORE_WITH_PARENT_ID
                      \<and> Entry.TypeName e = MeasureSheet) entries"
  by (induction entries arbitrary: acc) (simp_all add: Contains_iff)

text \<open>
  Claim C2. \<open>Preprocess\<close> returns the entries that are not folders, have at least one
  reference, have a parent identifier outside the denylist and have the type name
  "MeasureSheet", in their input order: the result is the input filtered by these four
  conditions, so every entry is kept whole or dropped, none is reordered or merged with
  an equal one. The input list is a value and is not changed.
\<close>

theorem Preprocess_filter:
  "Preprocess entries =
     filter (\<lambda>e. IsFolder e = False \<and> DirectReferences e \<noteq> []
                \<and> ParentId e \<notin> set [24200, 24225, 24532, 25061, 25083, 24413, 24374,
                                      24738, 25211, 230, 23795]
                \<and> Entry.TypeName e = ''MeasureSheet'') entries"
  by (simp add: Preprocess_def Preprocess_loop_filter IGNORE_WITH_PARENT_ID_def
      MeasureSheet_def)

section \<open>The heap under one link\<close>

lemma length_AddDependency: "length (AddDependency h c d) = length h"
  by (simp add: AddDependency_def)

lemma length_AddDependent: "length (AddDependent h c d) = length h"
  by (simp add: AddDependent_def)

lemma nth_AddDependency:
  "a < length h \<Longrightarrow> AddDependency h c d ! a =
     (if a = c then (h ! c)\<lparr>Dependencies := Dependencies (h ! c) @ [d]\<rparr> else h ! a)"
  by (auto simp add: AddDependency_def)

lemma nth_AddDependent:
  "a < length h \<Longrightarrow> AddDependent h c d ! a =
     (if a = c then (h ! c)\<lparr>Dependents := Dependents (h ! c) @ [d]\<rparr> else h ! a)"
  by (auto simp add: AddDependent_def)

lemma link_length: "length (AddDependent (AddDependency h self t) t self) = length h"
  by (simp add: length_AddDependency length_AddDependent)

lemma link_nth:
  assumes "a < length h"
  shows "Component.Id (AddDependent (AddDependency h self t) t self ! a) = Component.Id (h ! a)"
    and "Component.Name (AddDependent (AddDependency h self t) t self ! a) = Component.Name (h ! a)"
    and "Component.TypeName (AddDependent (AddDependency h self t) t self ! a) = Component.TypeName (h ! a)"
    and "Dependencies (AddDependent (AddDependency h self t) t self ! a) =
           Dependencies (h ! a) @ (if a = self then [t] else [])"
    and "Dependents (AddDependent (AddDependency h self t) t self ! a) =
           Dependents (h ! a) @ (if a = t then [self] else [])"
  using assms
  by (auto simp add: nth_AddDependency nth_AddDependent length_AddDependency)

lemma wire_refs_char:
  assumes "s eid = Some self" and "\<forall>k a. s k = Some a \<longrightarrow> a < length h"
  shows "\<exists>h'. wire_refs s eid refs h = Inr h' \<and> length h' = length h \<and>
           (\<forall>a<length h.
              Component.Id (h' ! a) = Component.Id (h ! a) \<and>
              Component.Name (h' ! a) = Component.Name (h ! a) \<and>
              Component.TypeName (h' ! a) = Component.TypeName (h ! a) \<and>
              Dependencies (h' ! a) = Dependencies (h ! a) @
                (if a = self then List.map_filter (\<lambda>r. s (DirectReference.Id r)) refs else []) \<and>
              Dependents (h' ! a) = Dependents (h ! a) @
                List.map_filter (\<lambda>r. if s (DirectReference.Id r) = Some a then Some self else None) refs)"
  using assms
proof (induction refs arbitrary: h)
  case Nil
  then show ?case by (simp add: List.map_filter_simps)
next
  case (Cons r refs)
  show ?case
  proof (cases "s (DirectReference.Id r)")
    case None
    have e0: "wire_refs s eid (r # refs) h = wire_refs s eid refs h"
      using None by simp
    have e1: "List.map_filter (\<lambda>r. s (DirectReference.Id r)) (r # refs) =
              List.map_filter (\<lambda>r. s (DirectReference.Id r)) refs"
      using None by (simp add: List.map_filter_simps)
    have e2: "\<And>a. List.map_filter (\<lambda>r. if s (DirectReference.Id r) = Some a then Some self else None) (r # refs) =
              List.map_filter (\<lambda>r. if s (DirectReference.Id r) = Some a then Some self else None) refs"
      using None by (simp add: List.map_filter_simps)
    from Cons.IH[of h, OF Cons.prems] show ?thesis
      by (simp only: e0 e1 e2)
  next
    case (Some t)
    let ?h1 = "AddDependent (AddDependency h self t) t self"
    have len: "length ?h1 = length h" by (rule link_length)
    have "\<forall>k a. s k = Some a \<longrightarrow> a < length ?h1"
      using Cons.prems(2) len by simp
    from Cons.IH[of ?h1, OF Cons.prems(1) this]
    obtain h' where h': "wire_refs s eid refs ?h1 = Inr h'" "length h' = length ?h1"
      and rest: "\<forall>a<length ?h1.
              Component.Id (h' ! a) = Component.Id (?h1 ! a) \<and>
              Component.Name (h' ! a) = Component.Name (?h1 ! a) \<and>
              Component.TypeName (h' ! a) = Component.TypeName (?h1 ! a) \<and>
              Dependencies (h' ! a) = Dependencies (?h1 ! a) @
                (if a = self then List.map_filter (\<lambda>r. s (DirectReference.Id r)) refs else []) \<and>
              Dependents (h' ! a) = Dependents (?h1 ! a) @
                List.map_filter (\<lambda>r. if s (DirectReference.Id r) = Some a then Some self else None) refs"
      by blast
    have run: "wire_refs s eid (r # refs) h = Inr h'"
      using Some Cons.prems(1) h'(1) by simp
    show ?thesis
    proof (intro exI conjI allI impI)
      show "wire_refs s eid (r # refs) h = Inr h'" by (rule run)
      show "length h' = length h" using h'(2) len by simp
    next
      fix a assume a: "a < length h"
      then have a1: "a < length ?h1" using len by simp
      note R = rest[rule_format, OF a1]
      show "Component.Id (h' ! a) = Component.Id (h ! a)"
        using R link_nth(1)[OF a] by simp
      show "Component.Name (h' ! a) = Component.Name (h ! a)"
        using R link_nth(2)[OF a] by simp
      show "Component.TypeName (h' ! a) = Component.TypeName (h ! a)"
        using R link_nth(3)[OF a] by simp
      show "Dependencies (h' ! a) = Dependencies (h ! a) @
                (if a = self then List.map_filter (\<lambda>r. s (DirectReference.Id r)) (r # refs) else [])"
        using R link_nth(4)[OF a, of self t] Some by (simp add: List.map_filter_simps)
      show "Dependents (h' ! a) = Dependents (h ! a) @
                List.map_filter (\<lambda>r. if s (DirectReference.Id r) = Some a then Some self else None) (r # refs)"
        using R link_nth(5)[OF a, of self t] Some by (auto simp add: List.map_filter_simps)
    qed
  qed
qed

section \<open>The three loops\<close>

lemma wire_entries_char:
  assumes "\<forall>e\<in>set es. \<exists>c. s (Entry.Id e) = Some c"
    and "\<forall>k a. s k = Some a \<longrightarrow> a < length h"
  shows "\<exists>h'. wire_entries s es h = Inr h' \<and> length h' = length h \<and>
           (\<forall>a<length h.
              Component.Id (h' ! a) = Component.Id (h ! a) \<and>
              Component.Name (h' ! a) = Component.Name (h ! a) \<and>
              Component.TypeName (h' ! a) = Component.TypeName (h ! a) \<and>
              Dependencies (h' ! a) = Dependencies (h ! a) @
                concat (map (\<lambda>R. if s (Entry.Id R) = Some a
                                  then List.map_filter (\<lambda>r. s (DirectReference.Id r)) (DirectReferences R)
                                  else []) es) \<and>
              Dependents (h' ! a) = Dependents (h ! a) @
                concat (map (\<lambda>R. List.map_filter
                                    (\<lambda>r. if s (DirectReference.Id r) = Some a then s (Entry.Id R) else None)
                                    (DirectReferences R)) es))"
  using assms
proof (induction es arbitrary: h)
  case Nil
  then show ?case by simp
next
  case (Cons e es)
  from Cons.prems(1) obtain self where self: "s (Entry.Id e) = Some self" by auto
  from wire_refs_char[OF self Cons.prems(2), of "DirectReferences e"]
  obtain h1 where h1: "wire_refs s (Entry.Id e) (DirectReferences e) h = Inr h1"
      "length h1 = length h"
    and r1: "\<forall>a<length h.
              Component.Id (h1 ! a) = Component.Id (h ! a) \<and>
              Component.Name (h1 ! a) = Component.Name (h ! a) \<and>
              Component.TypeName (h1 ! a) = Component.TypeName (h ! a) \<and>
              Dependencies (h1 ! a) = Dependencies (h ! a) @
                (if a = self then List.map_filter (\<lambda>r. s (DirectReference.Id r)) (DirectReferences e) else []) \<and>
              Dependents (h1 ! a) = Dependents (h ! a) @
                List.map_filter (\<lambda>r. if s (DirectReference.Id r) = Some a then Some self else None) (DirectReferences e)"
    by blast
  have p1: "\<forall>e\<in>set es. \<exists>c. s (Entry.Id e) = Some c" using Cons.prems(1) by simp
  have p2: "\<forall>k a. s k = Some a \<longrightarrow> a < length h1" using Cons.prems(2) h1(2) by simp
  from Cons.IH[OF p1 p2]
  obtain h' where h': "wire_entries s es h1 = Inr h'" "length h' = length h1"
    and r2: "\<forall>a<length h1.
              Component.Id (h' ! a) = Component.Id (h1 ! a) \<and>
              Component.Name (h' ! a) = Component.Name (h1 ! a) \<and>
              Component.TypeName (h' ! a) = Component.TypeName (h1 ! a) \<and>
              Dependencies (h' ! a) = Dependencies (h1 ! a) @
                concat (map (\<lambda>R. if s (Entry.Id R) = Some a
                                  then List.map_filter (\<lambda>r. s (DirectReference.Id r)) (DirectReferences R)
                                  else []) es) \<and>
              Dependents (h' ! a) = Dependents (h1 ! a) @
                concat (map (\<lambda>R. List.map_filter
                                    (\<lambda>r. if s (DirectReference.Id r) = Some a then s (Entry.Id R) else None)
                                    (DirectReferences R)) es)"
    by blast
  show ?case
  proof (intro exI conjI allI impI)
    show "wire_entries s (e # es) h = Inr h'" using h1(1) h'(1) by simp
    show "length h' = length h" using h1(2) h'(2) by simp
  next
    fix a assume a: "a < length h"
    then have a1: "a < length h1" using h1(2) by simp
    note A = r1[rule_format, OF a] and B = r2[rule_format, OF a1]
    show "Component.Id (h' ! a) = Component.Id (h ! a)" using A B by simp
    show "Component.Name (h' ! a) = Component.Name (h ! a)" using A B by simp
    show "Component.TypeName (h' ! a) = Component.TypeName (h ! a)" using A B by simp
    have D1: "Dependencies (h1 ! a) = Dependencies (h ! a) @
        (if s (Entry.Id e) = Some a
         then List.map_filter (\<lambda>r. s (DirectReference.Id r)) (DirectReferences e) else [])"
      using A self by auto
    have D2: "Dependencies (h' ! a) = Dependencies (h1 ! a) @
                concat (map (\<lambda>R. if s (Entry.Id R) = Some a
                                  then List.map_filter (\<lambda>r. s (DirectReference.Id r)) (DirectReferences R)
                                  else []) es)"
      using B by blast
    show "Dependencies (h' ! a) = Dependencies (h ! a) @
                concat (map (\<lambda>R. if s (Entry.Id R) = Some a
                                  then List.map_filter (\<lambda>r. s (DirectReference.Id r)) (DirectReferences R)
                                  else []) (e # es))"
      unfolding D2 D1 by simp
    have E1: "Dependents (h1 ! a) = Dependents (h ! a) @
        List.map_filter (\<lambda>r. if s (DirectReference.Id r) = Some a then s (Entry.Id e) else None)
          (DirectReferences e)"
      using A by (simp add: self cong: if_cong)
    have E2: "Dependents (h' ! a) = Dependents (h1 ! a) @
                concat (map (\<lambda>R. List.map_filter
                                    (\<lambda>r. if s (DirectReference.Id r) = Some a then s (Entry.Id R) else None)
                                    (DirectReferences R)) es)"
      using B by blast
    show "Dependents (h' ! a) = Dependents (h ! a) @
                concat (map (\<lambda>R. List.map_filter
                                    (\<lambda>r. if s (DirectReference.Id r) = Some a then s (Entry.Id R) else None)
                                    (DirectReferences R)) (e # es))"
      unfolding E2 E1 by simp
  qed
qed

lemma materialize_heap: "fst (materialize es h s) = h @ map AsComponent es"
  by (induction es arbitrary: h s) simp_all

lemma materialize_dom: "dom (snd (materialize es h s)) = dom s \<union> Entry.Id ` set es"
  by (induction es arbitrary: h s) auto

lemma store_ok_alloc:
  assumes "store_ok h s"
  shows "store_ok (h @ [AsComponent e]) (s(Entry.Id e \<mapsto> length h))"
  unfolding store_ok_def
proof (intro allI impI)
  fix k a assume ka: "(s(Entry.Id e \<mapsto> length h)) k = Some a"
  show "a < length (h @ [AsComponent e]) \<and> Component.Id ((h @ [AsComponent e]) ! a) = k"
  proof (cases "k = Entry.Id e")
    case True
    with ka have "a = length h" by simp
    with True show ?thesis by (simp add: AsComponent_def)
  next
    case False
    with ka have "s k = Some a" by simp
    with assms have "a < length h" "Component.Id (h ! a) = k" by (auto simp: store_ok_def)
    then show ?thesis by (simp add: nth_append)
  qed
qed

lemma materialize_store_ok:
  "store_ok h s \<Longrightarrow> store_ok (fst (materialize es h s)) (snd (materialize es h s))"
proof (induction es arbitrary: h s)
  case Nil
  then show ?case by simp
next
  case (Cons e es)
  from Cons.IH[OF store_ok_alloc[OF Cons.prems, of e]] show ?case
    by (simp only: materialize.simps)
qed

lemma prune_loop_char:
  "store_ok h s \<Longrightarrow>
   prune_loop h ks s k =
     (case s k of None \<Rightarrow> None
      | Some a \<Rightarrow> if k \<in> set ks \<and> isolated (h ! a) then None else Some a)"
proof (induction ks arbitrary: s)
  case Nil
  then show ?case by (simp split: option.splits)
next
  case (Cons k0 ks)
  show ?case
  proof (cases "s k0")
    case None
    with Cons.IH[OF Cons.prems] show ?thesis by (auto split: option.splits)
  next
    case (Some p)
    with Cons.prems have idp: "Component.Id (h ! p) = k0" by (simp add: store_ok_def)
    show ?thesis
    proof (cases "isolated (h ! p)")
      case True
      have ok: "store_ok h (s(k0 := None))"
        using Cons.prems by (simp add: store_ok_def)
      have "prune_loop h (k0 # ks) s k = prune_loop h ks (s(k0 := None)) k"
        using Some True idp by simp
      also have "\<dots> = (case (s(k0 := None)) k of None \<Rightarrow> None
            | Some a \<Rightarrow> if k \<in> set ks \<and> isolated (h ! a) then None else Some a)"
        by (rule Cons.IH[OF ok])
      also have "\<dots> = (case s k of None \<Rightarrow> None
            | Some a \<Rightarrow> if k \<in> set (k0 # ks) \<and> isolated (h ! a) then None else Some a)"
        using Some True by (auto split: option.splits)
      finally show ?thesis .
    next
      case False
      have "prune_loop h (k0 # ks) s k = prune_loop h ks s k"
        using Some False by simp
      also have "\<dots> = (case s k of None \<Rightarrow> None
            | Some a \<Rightarrow> if k \<in> set ks \<and> isolated (h ! a) then None else Some a)"
        by (rule Cons.IH[OF Cons.prems])
      also have "\<dots> = (case s k of None \<Rightarrow> None
            | Some a \<Rightarrow> if k \<in> set (k0 # ks) \<and> isolated (h ! a) then None else Some a)"
        using Some False by (auto split: option.splits)
      finally show ?thesis .
    qed
  qed
qed

lemma prune_loop_any_order:
  "store_ok h s \<Longrightarrow> set ks = set ks' \<Longrightarrow> prune_loop h ks s = prune_loop h ks' s"
  by (rule ext) (simp add: prune_loop_char split: option.splits)

lemma store_ok_key:
  assumes "store_ok h s" and "s k = Some a"
  shows "s k' = Some a \<longleftrightarrow> k' = k"
  using assms by (auto simp: store_ok_def)

lemma wire_char:
  "\<exists>h. wire entries = Inr (h, snd (materialize entries [] Map.empty)) \<and>
        length h = length entries \<and>
        (\<forall>a<length h.
           Component.Id (h ! a) = Entry.Id (entries ! a) \<and>
           Component.Name (h ! a) = Entry.Name (entries ! a) \<and>
           Component.TypeName (h ! a) = Entry.TypeName (entries ! a) \<and>
           Dependencies (h ! a) =
             concat (map (\<lambda>R. if snd (materialize entries [] Map.empty) (Entry.Id R) = Some a
                               then List.map_filter (\<lambda>r. snd (materialize entries [] Map.empty) (DirectReference.Id r)) (DirectReferences R)
                               else []) entries) \<and>
           Dependents (h ! a) =
             concat (map (\<lambda>R. List.map_filter
                                 (\<lambda>r. if snd (materialize entries [] Map.empty) (DirectReference.Id r) = Some a
                                      then snd (materialize entries [] Map.empty) (Entry.Id R) else None)
                                 (DirectReferences R)) entries))"
proof -
  let ?s = "snd (materialize entries [] Map.empty)"
  let ?h0 = "map AsComponent entries"
  have m: "materialize entries [] Map.empty = (?h0, ?s)"
    using materialize_heap[of entries "[]" Map.empty] by (simp add: prod_eq_iff)
  have "store_ok [] Map.empty" by (simp add: store_ok_def)
  from materialize_store_ok[OF this, of entries]
  have ok0: "store_ok ?h0 ?s" by (simp add: materialize_heap)
  have d: "dom ?s = Entry.Id ` set entries" by (simp add: materialize_dom)
  have p1: "\<forall>e\<in>set entries. \<exists>c. ?s (Entry.Id e) = Some c"
    using d by (metis domD imageI)
  have p2: "\<forall>k a. ?s k = Some a \<longrightarrow> a < length ?h0"
    using ok0 by (simp add: store_ok_def)
  from wire_entries_char[OF p1 p2]
  obtain h where h: "wire_entries ?s entries ?h0 = Inr h" "length h = length ?h0"
    and r: "\<forall>a<length ?h0.
              Component.Id (h ! a) = Component.Id (?h0 ! a) \<and>
              Component.Name (h ! a) = Component.Name (?h0 ! a) \<and>
              Component.TypeName (h ! a) = Component.TypeName (?h0 ! a) \<and>
              Dependencies (h ! a) = Dependencies (?h0 ! a) @
                concat (map (\<lambda>R. if ?s (Entry.Id R) = Some a
                                  then List.map_filter (\<lambda>r. ?s (DirectReference.Id r)) (DirectReferences R)
                                  else []) entries) \<and>
              Dependents (h ! a) = Dependents (?h0 ! a) @
                concat (map (\<lambda>R. List.map_filter
                                    (\<lambda>r. if ?s (DirectReference.Id r) = Some a then ?s (Entry.Id R) else None)
                                    (DirectReferences R)) entries)"
    by blast
  have w: "wire entries = Inr (h, ?s)"
    using h(1) by (simp add: wire_def case_prod_beta materialize_heap)
  show ?thesis
  proof (intro exI conjI allI impI)
    show "wire entries = Inr (h, ?s)" by (rule w)
    show "length h = length entries" using h(2) by simp
  next
    fix a assume "a < length h"
    then have a: "a < length ?h0" and a': "a < length entries" using h(2) by simp_all
    note R = r[rule_format, OF a]
    have z: "?h0 ! a = AsComponent (entries ! a)" using a' by simp
    show "Component.Id (h ! a) = Entry.Id (entries ! a)"
      using R z by (simp add: AsComponent_def)
    show "Component.Name (h ! a) = Entry.Name (entries ! a)"
      using R z by (simp add: AsComponent_def)
    show "Component.TypeName (h ! a) = Entry.TypeName (entries ! a)"
      using R z by (simp add: AsComponent_def)
    show "Dependencies (h ! a) =
             concat (map (\<lambda>R. if ?s (Entry.Id R) = Some a
                               then List.map_filter (\<lambda>r. ?s (DirectReference.Id r)) (DirectReferences R)
                               else []) entries)"
      using R z by (simp add: AsComponent_def)
    show "Dependents (h ! a) =
             concat (map (\<lambda>R. List.map_filter
                                 (\<lambda>r. if ?s (DirectReference.Id r) = Some a
                                      then ?s (Entry.Id R) else None)
                                 (DirectReferences R)) entries)"
      using R z by (simp add: AsComponent_def)
  qed
qed

lemma wire_total: "\<exists>h s. wire entries = Inr (h, s)"
  using wire_char[of entries] by blast

lemma wire_store:
  assumes "wire entries = Inr (h, s)"
  shows "s = snd (materialize entries [] Map.empty)"
  using assms wire_char[of entries] by auto

lemma wire_length:
  assumes "wire entries = Inr (h, s)"
  shows "length h = length entries"
  using assms wire_char[of entries] by auto

lemma wire_dom:
  assumes "wire entries = Inr (h, s)"
  shows "dom s = Entry.Id ` set entries"
  using wire_store[OF assms] by (simp add: materialize_dom)

lemma wire_fields:
  assumes "wire entries = Inr (h, s)" and "a < length h"
  shows "Component.Id (h ! a) = Entry.Id (entries ! a)"
    and "Component.Name (h ! a) = Entry.Name (entries ! a)"
    and "Component.TypeName (h ! a) = Entry.TypeName (entries ! a)"
  using assms wire_char[of entries] by auto

lemma wire_store_ok:
  assumes "wire entries = Inr (h, s)"
  shows "store_ok h s"
proof -
  have "store_ok [] Map.empty" by (simp add: store_ok_def)
  from materialize_store_ok[OF this, of entries]
  have ok0: "store_ok (map AsComponent entries) s"
    using wire_store[OF assms] by (simp add: materialize_heap)
  show ?thesis
    unfolding store_ok_def
  proof (intro allI impI)
    fix k a assume "s k = Some a"
    with ok0 have a0: "a < length (map AsComponent entries)"
      and i0: "Component.Id (map AsComponent entries ! a) = k"
      unfolding store_ok_def by blast+
    from a0 have a: "a < length entries" by simp
    from a i0 have i: "Entry.Id (entries ! a) = k"
      by (simp add: AsComponent_def)
    from a have "a < length h" using wire_length[OF assms] by simp
    with wire_fields(1)[OF assms this] i
    show "a < length h \<and> Component.Id (h ! a) = k" by simp
  qed
qed

lemma wire_by_address:
  assumes "wire entries = Inr (h, s)" and "a < length h"
  shows "Dependencies (h ! a) =
           concat (map (\<lambda>R. if s (Entry.Id R) = Some a
                             then List.map_filter (\<lambda>r. s (DirectReference.Id r)) (DirectReferences R)
                             else []) entries)"
    and "Dependents (h ! a) =
           concat (map (\<lambda>R. List.map_filter
                               (\<lambda>r. if s (DirectReference.Id r) = Some a then s (Entry.Id R) else None)
                               (DirectReferences R)) entries)"
  using assms wire_char[of entries] by auto

lemma wire_by_key:
  assumes "wire entries = Inr (h, s)" and "s k = Some a"
  shows "Dependencies (h ! a) =
           concat (map (\<lambda>R. if Entry.Id R = k
                             then List.map_filter (\<lambda>r. s (DirectReference.Id r)) (DirectReferences R)
                             else []) entries)"
    and "Dependents (h ! a) =
           concat (map (\<lambda>R. List.map_filter
                               (\<lambda>r. if DirectReference.Id r = k then s (Entry.Id R) else None)
                               (DirectReferences R)) entries)"
proof -
  note ok = wire_store_ok[OF assms(1)]
  from ok assms(2) have a: "a < length h" by (simp add: store_ok_def)
  have key: "\<And>k'. s k' = Some a \<longleftrightarrow> k' = k"
    by (rule store_ok_key[OF ok assms(2)])
  show "Dependencies (h ! a) =
           concat (map (\<lambda>R. if Entry.Id R = k
                             then List.map_filter (\<lambda>r. s (DirectReference.Id r)) (DirectReferences R)
                             else []) entries)"
    using wire_by_address(1)[OF assms(1) a] by (simp add: key)
  show "Dependents (h ! a) =
           concat (map (\<lambda>R. List.map_filter
                               (\<lambda>r. if DirectReference.Id r = k then s (Entry.Id R) else None)
                               (DirectReferences R)) entries)"
    using wire_by_address(2)[OF assms(1) a] by (simp add: key)
qed

lemma ResolveRelations_char:
  assumes "wire entries = Inr (h, s0)"
  shows "ResolveRelations entries =
           Inr (h, \<lambda>k. case s0 k of None \<Rightarrow> None
                      | Some a \<Rightarrow> if isolated (h ! a) then None else Some a)"
proof -
  note ok = wire_store_ok[OF assms]
  have "prune_loop h (remdups (map Entry.Id entries)) s0 =
        (\<lambda>k. case s0 k of None \<Rightarrow> None
                      | Some a \<Rightarrow> if isolated (h ! a) then None else Some a)"
  proof (rule ext)
    fix k
    show "prune_loop h (remdups (map Entry.Id entries)) s0 k =
          (case s0 k of None \<Rightarrow> None | Some a \<Rightarrow> if isolated (h ! a) then None else Some a)"
    proof (cases "s0 k")
      case None
      then show ?thesis by (simp add: prune_loop_char[OF ok])
    next
      case (Some a)
      then have "k \<in> Entry.Id ` set entries" using wire_dom[OF assms] by auto
      with Some show ?thesis by (simp add: prune_loop_char[OF ok])
    qed
  qed
  with assms show ?thesis by (simp add: ResolveRelations_def)
qed

section \<open>Symmetry and closure of the wired heap\<close>

lemma count_list_concat:
  "count_list (concat xss) y = sum_list (map (\<lambda>xs. count_list xs y) xss)"
  by (induction xss) simp_all

lemma count_list_map_filter:
  "count_list (List.map_filter f xs) y = length (filter (\<lambda>x. f x = Some y) xs)"
  by (induction xs) (auto split: option.splits)

lemma set_map_filter: "set (List.map_filter f xs) = {y. \<exists>x\<in>set xs. f x = Some y}"
  by (induction xs) (auto split: option.splits)

lemma wire_symmetric:
  assumes "wire entries = Inr (h, s)" and "a < length h" and "b < length h"
  shows "count_list (Dependencies (h ! b)) a = count_list (Dependents (h ! a)) b"
proof -
  have "(\<lambda>R. count_list (if s (Entry.Id R) = Some b
                 then List.map_filter (\<lambda>r. s (DirectReference.Id r)) (DirectReferences R)
                 else []) a) =
        (\<lambda>R. count_list (List.map_filter
                 (\<lambda>r. if s (DirectReference.Id r) = Some a then s (Entry.Id R) else None)
                 (DirectReferences R)) b)"
  proof (rule ext)
    fix R
    have "(\<lambda>r. (if s (DirectReference.Id r) = Some a then s (Entry.Id R) else None) = Some b) =
          (\<lambda>r. s (DirectReference.Id r) = Some a \<and> s (Entry.Id R) = Some b)"
      by auto
    then show "count_list (if s (Entry.Id R) = Some b
                 then List.map_filter (\<lambda>r. s (DirectReference.Id r)) (DirectReferences R)
                 else []) a =
          count_list (List.map_filter
                 (\<lambda>r. if s (DirectReference.Id r) = Some a then s (Entry.Id R) else None)
                 (DirectReferences R)) b"
      by (simp add: count_list_map_filter)
  qed
  then have eq: "(\<Sum>R\<leftarrow>entries. count_list (if s (Entry.Id R) = Some b
                 then List.map_filter (\<lambda>r. s (DirectReference.Id r)) (DirectReferences R)
                 else []) a) =
        (\<Sum>R\<leftarrow>entries. count_list (List.map_filter
                 (\<lambda>r. if s (DirectReference.Id r) = Some a then s (Entry.Id R) else None)
                 (DirectReferences R)) b)"
    by (rule arg_cong[of _ _ "\<lambda>F. sum_list (map F entries)"])
  have "count_list (Dependencies (h ! b)) a =
        (\<Sum>R\<leftarrow>entries. count_list (if s (Entry.Id R) = Some b
                 then List.map_filter (\<lambda>r. s (DirectReference.Id r)) (DirectReferences R)
                 else []) a)"
    unfolding wire_by_address(1)[OF assms(1,3)] count_list_concat by (simp only: map_map comp_def)
  also note eq
  also have "(\<Sum>R\<leftarrow>entries. count_list (List.map_filter
                 (\<lambda>r. if s (DirectReference.Id r) = Some a then s (Entry.Id R) else None)
                 (DirectReferences R)) b) = count_list (Dependents (h ! a)) b"
    unfolding wire_by_address(2)[OF assms(1,2)] count_list_concat by (simp only: map_map comp_def)
  finally show ?thesis .
qed

lemma wire_closed:
  assumes "wire entries = Inr (h, s)" and "a < length h"
    and "p \<in> set (Dependencies (h ! a)) \<union> set (Dependents (h ! a))"
  shows "\<exists>j. s j = Some p"
  using assms(3)
  by (auto simp add: wire_by_address[OF assms(1,2)] set_map_filter split: if_splits)

lemma ResolveRelations_wire:
  assumes "ResolveRelations entries = Inr (h, s)"
  shows "wire entries = Inr (h, snd (materialize entries [] Map.empty))"
    and "s = (\<lambda>k. case snd (materialize entries [] Map.empty) k of None \<Rightarrow> None
                 | Some a \<Rightarrow> if isolated (h ! a) then None else Some a)"
proof -
  from wire_total[of entries] obtain h0 s0 where w: "wire entries = Inr (h0, s0)" by blast
  from ResolveRelations_char[OF w] assms have hh: "h0 = h"
    and ss: "s = (\<lambda>k. case s0 k of None \<Rightarrow> None
                 | Some a \<Rightarrow> if isolated (h0 ! a) then None else Some a)"
    by simp_all
  from wire_store[OF w] have s0: "s0 = snd (materialize entries [] Map.empty)" .
  show "wire entries = Inr (h, snd (materialize entries [] Map.empty))"
    using w hh s0 by simp
  show "s = (\<lambda>k. case snd (materialize entries [] Map.empty) k of None \<Rightarrow> None
                 | Some a \<Rightarrow> if isolated (h ! a) then None else Some a)"
    using ss unfolding hh s0 .
qed

lemma ResolveRelations_total: "\<exists>h s. ResolveRelations entries = Inr (h, s)"
  using wire_total[of entries] ResolveRelations_char[of entries] by blast

lemma pruned_sub:
  assumes "wire entries = Inr (h, s0)" and "ResolveRelations entries = Inr (h', s)"
  shows "h' = h"
    and "s k = Some a \<longleftrightarrow> s0 k = Some a \<and> \<not> isolated (h ! a)"
  using ResolveRelations_char[OF assms(1)] assms(2)
  by (auto split: option.splits if_splits)

lemma referenced_not_isolated:
  assumes w: "wire entries = Inr (h, s)" and a: "a < length h" and p: "p < length h"
    and m: "p \<in> set (Dependencies (h ! a)) \<union> set (Dependents (h ! a))"
  shows "\<not> isolated (h ! p)"
proof -
  have "a \<in> set (Dependents (h ! p)) \<or> a \<in> set (Dependencies (h ! p))"
  proof (cases "p \<in> set (Dependencies (h ! a))")
    case True
    then have "count_list (Dependencies (h ! a)) p \<noteq> 0" by (simp add: count_list_0_iff)
    then have "count_list (Dependents (h ! p)) a \<noteq> 0" using wire_symmetric[OF w p a] by simp
    then show ?thesis by (simp add: count_list_0_iff)
  next
    case False
    with m have "p \<in> set (Dependents (h ! a))" by simp
    then have "count_list (Dependents (h ! a)) p \<noteq> 0" by (simp add: count_list_0_iff)
    then have "count_list (Dependencies (h ! p)) a \<noteq> 0" using wire_symmetric[OF w a p] by simp
    then show ?thesis by (simp add: count_list_0_iff)
  qed
  then show ?thesis by (auto simp: isolated_def)
qed

lemma pruned_closed:
  assumes r: "ResolveRelations entries = Inr (h, s)" and k: "s k = Some a"
    and m: "p \<in> set (Dependencies (h ! a)) \<union> set (Dependents (h ! a))"
  shows "\<exists>j. s j = Some p"
proof -
  note w = ResolveRelations_wire(1)[OF r]
  let ?s0 = "snd (materialize entries [] Map.empty)"
  from k have k0: "?s0 k = Some a" by (simp add: pruned_sub(2)[OF w r])
  with wire_store_ok[OF w] have a: "a < length h" by (simp add: store_ok_def)
  from wire_closed[OF w a m] obtain j where j: "?s0 j = Some p" by blast
  with wire_store_ok[OF w] have p: "p < length h" by (simp add: store_ok_def)
  from referenced_not_isolated[OF w a p m] j have "s j = Some p"
    by (simp add: pruned_sub(2)[OF w r])
  then show ?thesis by blast
qed

section \<open>The example, evaluated\<close>

lemma example_wire:
  "wire example_entries = Inr (example_heap, [1 \<mapsto> 0, 2 \<mapsto> 1, 3 \<mapsto> 2])"
  by (simp add: wire_def example_entries_def example_heap_def sheet_def AsComponent_def
      AddDependency_def AddDependent_def numeral_2_eq_2)

lemma example_run:
  "ResolveRelations example_entries = Inr (example_heap, [1 \<mapsto> 0, 2 \<mapsto> 1])"
proof -
  have "prune_loop example_heap [1, 2, 3] [1 \<mapsto> 0, 2 \<mapsto> 1, 3 \<mapsto> 2] = [1 \<mapsto> 0, 2 \<mapsto> 1]"
    by (rule ext) (simp add: example_heap_def isolated_def)
  moreover have "remdups (map Entry.Id example_entries) = [1, 2, 3]"
    by (simp add: example_entries_def sheet_def)
  ultimately show ?thesis
    by (simp add: ResolveRelations_def example_wire)
qed

lemma example_preprocess: "Preprocess example_entries = example_entries"
  by (simp add: Preprocess_def example_entries_def sheet_def IGNORE_WITH_PARENT_ID_def MeasureSheet_def)

section \<open>The graph that ResolveRelations returns\<close>

text \<open>
  Claim C1. Edge symmetry, before and after the pruning loop: for two components \<open>A\<close> (at
  address \<open>a\<close>) and \<open>B\<close> (at address \<open>b\<close>) of the map, \<open>A\<close> appears in the
  \<open>Dependencies\<close> of \<open>B\<close> exactly when \<open>B\<close> appears in the \<open>Dependents\<close> of \<open>A\<close>.
  Edges come in pairs: \<open>A\<close> appears in the one collection as many times as \<open>B\<close> does in
  the other.
\<close>

theorem edge_symmetry:
  assumes "wire entries = Inr (h, s) \<or> ResolveRelations entries = Inr (h, s)"
    and "s i = Some a" and "s j = Some b"
  shows "count_list (Dependencies (h ! b)) a = count_list (Dependents (h ! a)) b \<and>
         (a \<in> set (Dependencies (h ! b)) \<longleftrightarrow> b \<in> set (Dependents (h ! a)))"
proof -
  obtain s0 where w: "wire entries = Inr (h, s0)" and sub: "\<And>k c. s k = Some c \<Longrightarrow> s0 k = Some c"
  proof (cases "wire entries = Inr (h, s)")
    case True
    then show ?thesis using that by blast
  next
    case False
    with assms(1) have r: "ResolveRelations entries = Inr (h, s)" by simp
    note w = ResolveRelations_wire(1)[OF r]
    show ?thesis
      by (rule that[OF w]) (simp add: pruned_sub(2)[OF w r])
  qed
  have a: "a < length h" and b: "b < length h"
    using wire_store_ok[OF w] sub[OF assms(2)] sub[OF assms(3)] by (auto simp: store_ok_def)
  have c: "count_list (Dependencies (h ! b)) a = count_list (Dependents (h ! a)) b"
    by (rule wire_symmetric[OF w a b])
  have "(count_list (Dependencies (h ! b)) a = 0) = (count_list (Dependents (h ! a)) b = 0)"
    using c by simp
  then have "a \<in> set (Dependencies (h ! b)) \<longleftrightarrow> b \<in> set (Dependents (h ! a))"
    by (simp only: count_list_0_iff) blast
  with c show ?thesis by simp
qed

theorem edge_symmetry_witness:
  "ResolveRelations example_entries = Inr (example_heap, [1 \<mapsto> 0, 2 \<mapsto> 1]) \<and>
   count_list (Dependencies (example_heap ! 0)) 1 = 1 \<and>
   count_list (Dependents (example_heap ! 1)) 0 = 1 \<and>
   1 \<in> set (Dependencies (example_heap ! 0)) \<and>
   0 \<in> set (Dependents (example_heap ! 1))"
proof -
  have r: "wire example_entries = Inr (example_heap, [1 \<mapsto> 0, 2 \<mapsto> 1]) \<or>
           ResolveRelations example_entries = Inr (example_heap, [1 \<mapsto> 0, 2 \<mapsto> 1])"
    by (simp add: example_run)
  have i: "[1 \<mapsto> 0, 2 \<mapsto> 1] (2::int) = Some (1::nat)" by simp
  have j: "[1 \<mapsto> 0, 2 \<mapsto> 1] (1::int) = Some (0::nat)" by simp
  have d: "count_list (Dependencies (example_heap ! 0)) 1 = 1"
    by (simp add: example_heap_def)
  have m: "1 \<in> set (Dependencies (example_heap ! 0))"
    by (simp add: example_heap_def)
  note T = edge_symmetry[OF r i j]
  from T d have c: "count_list (Dependents (example_heap ! 1)) 0 = 1" by simp
  from T m have "0 \<in> set (Dependents (example_heap ! 1))" by blast
  with c d m example_run show ?thesis by blast
qed

text \<open>
  Claim C3. \<open>ResolveRelations\<close> returns a result for every input, it never fails. After
  the second loop the component stored under a key \<open>k\<close> has as \<open>Dependencies\<close> the
  targets of the references of the entries with identifier \<open>k\<close> whose target identifier is
  a key of the map, in the order of the entries and of their reference lists; a reference
  whose target is not a key adds nothing. Its \<open>Dependents\<close> are the components of the
  entries that refer to \<open>k\<close>, once for each such reference, in the same order.
\<close>

theorem ResolveRelations_wiring:
  "\<exists>h s0 s. wire entries = Inr (h, s0) \<and> ResolveRelations entries = Inr (h, s) \<and>
     dom s0 = Entry.Id ` set entries \<and>
     (\<forall>k a. s0 k = Some a \<longrightarrow>
        Component.Id (h ! a) = k \<and>
        Dependencies (h ! a) =
          concat (map (\<lambda>R. if Entry.Id R = k
                            then List.map_filter (\<lambda>r. s0 (DirectReference.Id r)) (DirectReferences R)
                            else []) entries) \<and>
        Dependents (h ! a) =
          concat (map (\<lambda>R. List.map_filter
                              (\<lambda>r. if DirectReference.Id r = k then s0 (Entry.Id R) else None)
                              (DirectReferences R)) entries))"
proof -
  from wire_total[of entries] obtain h s0 where w: "wire entries = Inr (h, s0)" by blast
  from ResolveRelations_char[OF w] obtain s where r: "ResolveRelations entries = Inr (h, s)"
    by blast
  show ?thesis
  proof (intro exI conjI allI impI)
    show "wire entries = Inr (h, s0)" by (rule w)
    show "ResolveRelations entries = Inr (h, s)" by (rule r)
    show "dom s0 = Entry.Id ` set entries" by (rule wire_dom[OF w])
  next
    fix k a assume ka: "s0 k = Some a"
    show "Component.Id (h ! a) = k"
      using wire_store_ok[OF w] ka by (simp add: store_ok_def)
    show "Dependencies (h ! a) =
          concat (map (\<lambda>R. if Entry.Id R = k
                            then List.map_filter (\<lambda>r. s0 (DirectReference.Id r)) (DirectReferences R)
                            else []) entries)"
      by (rule wire_by_key(1)[OF w ka])
    show "Dependents (h ! a) =
          concat (map (\<lambda>R. List.map_filter
                              (\<lambda>r. if DirectReference.Id r = k then s0 (Entry.Id R) else None)
                              (DirectReferences R)) entries)"
      by (rule wire_by_key(2)[OF w ka])
  qed
qed

theorem ResolveRelations_wiring_witness:
  "wire example_entries = Inr (example_heap, [1 \<mapsto> 0, 2 \<mapsto> 1, 3 \<mapsto> 2]) \<and>
   Dependencies (example_heap ! 0) =
     concat (map (\<lambda>R. if Entry.Id R = 1
                       then List.map_filter (\<lambda>r. [1 \<mapsto> 0, 2 \<mapsto> 1, 3 \<mapsto> 2] (DirectReference.Id r))
                              (DirectReferences R)
                       else []) example_entries) \<and>
   Dependencies (example_heap ! 0) = [1, 0] \<and>
   Dependents (example_heap ! 0) = [0, 1]"
proof -
  from ResolveRelations_wiring[of example_entries]
  obtain h s0 s where w: "wire example_entries = Inr (h, s0)"
    and c: "\<forall>k a. s0 k = Some a \<longrightarrow>
        Component.Id (h ! a) = k \<and>
        Dependencies (h ! a) =
          concat (map (\<lambda>R. if Entry.Id R = k
                            then List.map_filter (\<lambda>r. s0 (DirectReference.Id r)) (DirectReferences R)
                            else []) example_entries) \<and>
        Dependents (h ! a) =
          concat (map (\<lambda>R. List.map_filter
                              (\<lambda>r. if DirectReference.Id r = k then s0 (Entry.Id R) else None)
                              (DirectReferences R)) example_entries)"
    by blast
  from w example_wire have h: "h = example_heap" and s0: "s0 = [1 \<mapsto> 0, 2 \<mapsto> 1, 3 \<mapsto> 2]"
    by simp_all
  have k: "s0 1 = Some 0" by (simp add: s0)
  from c[rule_format, OF k]
  have d: "Dependencies (example_heap ! 0) =
     concat (map (\<lambda>R. if Entry.Id R = 1
                       then List.map_filter (\<lambda>r. [1 \<mapsto> 0, 2 \<mapsto> 1, 3 \<mapsto> 2] (DirectReference.Id r))
                              (DirectReferences R)
                       else []) example_entries)"
    unfolding h s0 by blast
  have "Dependencies (example_heap ! 0) = [1, 0]" "Dependents (example_heap ! 0) = [0, 1]"
    by (simp_all add: example_heap_def)
  with d example_wire show ?thesis by blast
qed

text \<open>
  Claim C4. Isolation pruning: every component of the returned map has at least one
  entry in its \<open>Dependencies\<close> or its \<open>Dependents\<close>. The pruning loop removes from the
  map exactly the keys whose component has both collections empty after wiring, and
  keeps every other key with its component; the heap is not changed.
\<close>

theorem isolation_pruning:
  assumes "ResolveRelations entries = Inr (h, s)" and "wire entries = Inr (h0, s0)"
  shows "h0 = h \<and>
         (\<forall>k a. s k = Some a \<longrightarrow>
            s0 k = Some a \<and> 0 < length (Dependencies (h ! a)) + length (Dependents (h ! a))) \<and>
         (\<forall>k a. s0 k = Some a \<longrightarrow>
            (if Dependencies (h ! a) = [] \<and> Dependents (h ! a) = [] then s k = None
             else s k = Some a))"
proof -
  have hh: "h = h0" by (rule pruned_sub(1)[OF assms(2,1)])
  have iff: "\<And>k a. s k = Some a \<longleftrightarrow> s0 k = Some a \<and> \<not> isolated (h ! a)"
    using pruned_sub(2)[OF assms(2,1)] hh by simp
  have iso: "\<And>c. isolated c \<longleftrightarrow> Dependencies c = [] \<and> Dependents c = []"
    by (auto simp: isolated_def)
  show ?thesis
  proof (intro conjI allI impI)
    show "h0 = h" using hh by simp
  next
    fix k a assume "s k = Some a"
    then have "s0 k = Some a" "\<not> isolated (h ! a)" using iff by blast+
    then show "s0 k = Some a" "0 < length (Dependencies (h ! a)) + length (Dependents (h ! a))"
      by (auto simp: iso)
  next
    fix k a assume k: "s0 k = Some a"
    show "if Dependencies (h ! a) = [] \<and> Dependents (h ! a) = [] then s k = None
          else s k = Some a"
    proof (cases "isolated (h ! a)")
      case True
      have "s k = None"
      proof (cases "s k")
        case None then show ?thesis .
      next
        case (Some b)
        with iff[of k b] k True show ?thesis by simp
      qed
      with True show ?thesis by (simp add: iso)
    next
      case False
      with iff[of k a] k show ?thesis by (simp add: iso)
    qed
  qed
qed

theorem isolation_pruning_witness:
  "ResolveRelations example_entries = Inr (example_heap, [1 \<mapsto> 0, 2 \<mapsto> 1]) \<and>
   wire example_entries = Inr (example_heap, [1 \<mapsto> 0, 2 \<mapsto> 1, 3 \<mapsto> 2]) \<and>
   0 < length (Dependencies (example_heap ! 1)) + length (Dependents (example_heap ! 1)) \<and>
   Dependencies (example_heap ! 2) = [] \<and> Dependents (example_heap ! 2) = [] \<and>
   [1 \<mapsto> 0, 2 \<mapsto> 1] (3::int) = (None :: nat option)"
proof -
  note T = isolation_pruning[OF example_run example_wire]
  have k2: "[1 \<mapsto> 0, 2 \<mapsto> 1] (2::int) = Some (1::nat)" by simp
  have k3: "[1 \<mapsto> 0, 2 \<mapsto> 1, 3 \<mapsto> 2] (3::int) = Some (2::nat)" by simp
  from T have p: "0 < length (Dependencies (example_heap ! 1)) + length (Dependents (example_heap ! 1))"
    using k2 by blast
  have e: "Dependencies (example_heap ! 2) = [] \<and> Dependents (example_heap ! 2) = []"
    by (simp add: example_heap_def)
  from T k3 have "if Dependencies (example_heap ! 2) = [] \<and> Dependents (example_heap ! 2) = []
     then [1 \<mapsto> 0, 2 \<mapsto> 1] (3::int) = (None :: nat option)
     else [1 \<mapsto> 0, 2 \<mapsto> 1] (3::int) = Some (2::nat)"
    by blast
  with e have "[1 \<mapsto> 0, 2 \<mapsto> 1] (3::int) = (None :: nat option)" by simp
  with p e example_run example_wire show ?thesis by blast
qed

text \<open>
  Claim C5. No dangling edges: every pointer in the \<open>Dependencies\<close> or \<open>Dependents\<close> of a
  component of the returned map is itself a value of the returned map. Pruning never
  removes a component that occurs in a collection of a component of the wired map.
\<close>

theorem no_dangling_edges:
  assumes "ResolveRelations entries = Inr (h, s)"
  shows "(\<forall>k a p. s k = Some a \<and> p \<in> set (Dependencies (h ! a)) \<union> set (Dependents (h ! a))
            \<longrightarrow> (\<exists>j. s j = Some p)) \<and>
         (\<forall>s0 k a j p. wire entries = Inr (h, s0) \<and> s0 k = Some a \<and> s0 j = Some p \<and>
            p \<in> set (Dependencies (h ! a)) \<union> set (Dependents (h ! a))
            \<longrightarrow> s j = Some p)"
proof -
  let ?s0 = "snd (materialize entries [] Map.empty)"
  note w = ResolveRelations_wire(1)[OF assms]
  note ok = wire_store_ok[OF w]
  show ?thesis
  proof (intro conjI allI impI)
    fix k a p
    assume "s k = Some a \<and> p \<in> set (Dependencies (h ! a)) \<union> set (Dependents (h ! a))"
    then show "\<exists>j. s j = Some p" using pruned_closed[OF assms] by blast
  next
    fix s0 k a j p
    assume A: "wire entries = Inr (h, s0) \<and> s0 k = Some a \<and> s0 j = Some p \<and>
            p \<in> set (Dependencies (h ! a)) \<union> set (Dependents (h ! a))"
    then have e: "s0 = ?s0" using w by simp
    from A e ok have a: "a < length h" and p: "p < length h" by (auto simp: store_ok_def)
    from referenced_not_isolated[OF w a p] A have "\<not> isolated (h ! p)" by blast
    with A e show "s j = Some p" by (simp add: pruned_sub(2)[OF w assms])
  qed
qed

theorem no_dangling_edges_witness:
  "ResolveRelations example_entries = Inr (example_heap, [1 \<mapsto> 0, 2 \<mapsto> 1]) \<and>
   [1 \<mapsto> 0, 2 \<mapsto> 1] (1::int) = Some (0::nat) \<and>
   (1::nat) \<in> set (Dependencies (example_heap ! 0)) \<union> set (Dependents (example_heap ! 0)) \<and>
   (\<exists>j::int. [1 \<mapsto> 0, 2 \<mapsto> 1] j = Some (1::nat))"
proof -
  note T = no_dangling_edges[OF example_run, THEN conjunct1, rule_format, of 1 0 1]
  have k: "[1 \<mapsto> 0, 2 \<mapsto> 1] (1::int) = Some (0::nat)" by simp
  have p: "(1::nat) \<in> set (Dependencies (example_heap ! 0)) \<union> set (Dependents (example_heap ! 0))"
    by (simp add: example_heap_def)
  from T[OF conjI[OF k p]] k p example_run show ?thesis by blast
qed

section \<open>Diagrams and short names\<close>

lemma Upstream_loop_filter:
  "Upstream_loop h c ps acc =
     acc @ map (\<lambda>p. Sprintf_edge (ShortName (h ! p)) (ShortName c))
            (filter (\<lambda>p. Component.TypeName (h ! p) = MeasureSheet \<and>
                          Component.Id (h ! p) \<noteq> Component.Id c) ps)"
  by (induction ps arbitrary: acc) (simp_all add: Let_def)

lemma Downstream_loop_filter:
  "Downstream_loop h c ps acc =
     acc @ map (\<lambda>p. Sprintf_edge (ShortName c) (ShortName (h ! p)))
            (filter (\<lambda>p. Component.TypeName (h ! p) = MeasureSheet \<and>
                          Component.Id (h ! p) \<noteq> Component.Id c) ps)"
  by (induction ps arbitrary: acc) (simp_all add: Let_def)



lemma takeWhile_code_prefix:
  assumes "\<forall>ch\<in>set p. is_code_char ch"
    and "case rest of [] \<Rightarrow> True | ch # _ \<Rightarrow> \<not> is_code_char ch"
  shows "takeWhile is_code_char (p @ rest) = p"
proof -
  have "takeWhile is_code_char rest = []"
    using assms(2) by (cases rest) simp_all
  with assms(1) show ?thesis by (simp add: takeWhile_append2)
qed

lemma ShortName_takeWhile:
  "ShortName c =
     (if takeWhile is_code_char (Component.Name c) = [] then Component.Name c
      else takeWhile is_code_char (Component.Name c))"
  by (simp add: ShortName_def FindStringSubmatch_def Let_def)

text \<open>
  Claim C7. When the name starts with a non-empty run \<open>p\<close> of digits and dots that is
  maximal (the name ends after it, or goes on with another character), \<open>ShortName\<close> is
  \<open>p\<close>. When the name is empty or starts with another character, \<open>ShortName\<close> is the
  name. The result depends on the name only. "12.3.4 Some Name" gives "12.3.4",
  "12.3 Revenue" gives "12.3" and "Untitled" gives "Untitled".
\<close>

theorem ShortName_derivation:
  "(\<forall>p rest. Component.Name c = p @ rest \<and> p \<noteq> [] \<and>
       (\<forall>ch\<in>set p. ch \<in> set ''0123456789.'') \<and>
       (case rest of [] \<Rightarrow> True | ch # _ \<Rightarrow> ch \<notin> set ''0123456789.'')
       \<longrightarrow> ShortName c = p) \<and>
   ((case Component.Name c of [] \<Rightarrow> True | ch # _ \<Rightarrow> ch \<notin> set ''0123456789.'')
       \<longrightarrow> ShortName c = Component.Name c) \<and>
   (\<forall>c'. Component.Name c' = Component.Name c \<longrightarrow> ShortName c' = ShortName c) \<and>
   ShortName (c\<lparr>Name := ''12.3.4 Some Name''\<rparr>) = ''12.3.4'' \<and>
   ShortName (c\<lparr>Name := ''12.3 Revenue''\<rparr>) = ''12.3'' \<and>
   ShortName (c\<lparr>Name := ''Untitled''\<rparr>) = ''Untitled''"
proof (intro conjI allI impI)
  fix p rest
  assume A: "Component.Name c = p @ rest \<and> p \<noteq> [] \<and>
       (\<forall>ch\<in>set p. ch \<in> set ''0123456789.'') \<and>
       (case rest of [] \<Rightarrow> True | ch # _ \<Rightarrow> ch \<notin> set ''0123456789.'')"
  then have 1: "\<forall>ch\<in>set p. is_code_char ch" by (simp add: is_code_char_def)
  from A have 2: "case rest of [] \<Rightarrow> True | ch # _ \<Rightarrow> \<not> is_code_char ch"
    by (simp add: is_code_char_def split: list.splits)
  from takeWhile_code_prefix[OF 1 2] A show "ShortName c = p"
    by (simp add: ShortName_takeWhile)
next
  assume "case Component.Name c of [] \<Rightarrow> True | ch # _ \<Rightarrow> ch \<notin> set ''0123456789.''"
  then have "takeWhile is_code_char (Component.Name c) = []"
    by (cases "Component.Name c") (simp_all add: is_code_char_def)
  then show "ShortName c = Component.Name c" by (simp add: ShortName_takeWhile)
next
  fix c' :: Component assume "Component.Name c' = Component.Name c"
  then show "ShortName c' = ShortName c" by (simp add: ShortName_takeWhile)
next
  show "ShortName (c\<lparr>Name := ''12.3.4 Some Name''\<rparr>) = ''12.3.4''"
    by (simp add: ShortName_takeWhile is_code_char_def)
  show "ShortName (c\<lparr>Name := ''12.3 Revenue''\<rparr>) = ''12.3''"
    by (simp add: ShortName_takeWhile is_code_char_def)
  show "ShortName (c\<lparr>Name := ''Untitled''\<rparr>) = ''Untitled''"
    by (simp add: ShortName_takeWhile is_code_char_def)
qed

theorem ShortName_derivation_witness:
  "ShortName \<lparr>Component.Id = 7, Name = ''4.10.2 Costs'', TypeName = ''MeasureSheet'',
              Dependencies = [], Dependents = []\<rparr> = ''4.10.2'' \<and>
   ShortName \<lparr>Component.Id = 8, Name = ''Costs 4.10'', TypeName = ''MeasureSheet'',
              Dependencies = [], Dependents = []\<rparr> = ''Costs 4.10''"
proof -
  let ?c = "\<lparr>Component.Id = 7, Name = ''4.10.2 Costs'', TypeName = ''MeasureSheet'',
              Dependencies = [], Dependents = []\<rparr>"
  let ?d = "\<lparr>Component.Id = 8, Name = ''Costs 4.10'', TypeName = ''MeasureSheet'',
              Dependencies = [], Dependents = []\<rparr>"
  have h1: "Component.Name ?c = ''4.10.2'' @ '' Costs'' \<and> ''4.10.2'' \<noteq> [] \<and>
       (\<forall>ch\<in>set ''4.10.2''. ch \<in> set ''0123456789.'') \<and>
       (case '' Costs'' of [] \<Rightarrow> True | ch # _ \<Rightarrow> ch \<notin> set ''0123456789.'')"
    by simp
  have h2: "case Component.Name ?d of [] \<Rightarrow> True | ch # _ \<Rightarrow> ch \<notin> set ''0123456789.''"
    by simp
  from ShortName_derivation[of ?c, THEN conjunct1, rule_format, OF h1]
  have 1: "ShortName ?c = ''4.10.2''" .
  from ShortName_derivation[of ?d, THEN conjunct2, THEN conjunct1, rule_format, OF h2]
  have 2: "ShortName ?d = ''Costs 4.10''" by simp
  from 1 2 show ?thesis by blast
qed

text \<open>
  Claim C8. Sheet \<open>C\<close> has identifier 10, type "MeasureSheet" and one reference, to
  11; sheet \<open>D\<close> has identifier 11, type "MeasureSheet" and no reference. Then the map
  that \<open>ResolveRelations\<close> returns for the preprocessed input is empty. When \<open>C\<close> passes
  the other two checks of the filter, \<open>Preprocess\<close> keeps \<open>C\<close> and drops \<open>D\<close>, the
  reference of \<open>C\<close> resolves to nothing, the component of \<open>C\<close> has both collections empty
  after wiring, and the pruning loop removes it.
\<close>

theorem prefilter_prune_interaction:
  assumes "Entry.Id C = 10" and "Entry.TypeName C = ''MeasureSheet''"
    and "map DirectReference.Id (DirectReferences C) = [11]"
    and "Entry.Id D = 11" and "Entry.TypeName D = ''MeasureSheet''"
    and "DirectReferences D = []"
  shows "(\<exists>h. ResolveRelations (Preprocess [C, D]) = Inr (h, Map.empty)) \<and>
         (\<not> IsFolder C \<and> ParentId C \<notin> set IGNORE_WITH_PARENT_ID \<longrightarrow>
            Preprocess [C, D] = [C] \<and>
            wire (Preprocess [C, D]) =
              Inr ([\<lparr>Component.Id = 10, Name = Entry.Name C, TypeName = ''MeasureSheet'',
                     Dependencies = [], Dependents = []\<rparr>], [10 \<mapsto> 0]) \<and>
            ResolveRelations (Preprocess [C, D]) =
              Inr ([\<lparr>Component.Id = 10, Name = Entry.Name C, TypeName = ''MeasureSheet'',
                     Dependencies = [], Dependents = []\<rparr>], Map.empty))"
proof -
  from assms(3) obtain r where r: "DirectReferences C = [r]" "DirectReference.Id r = 11"
    by (cases "DirectReferences C") auto
  have d: "Preprocess [C, D] = Preprocess [C]"
    by (simp add: Preprocess_def assms(6))
  have e: "ResolveRelations [] = Inr ([], Map.empty)"
    by (simp add: ResolveRelations_def wire_def)
  have w: "wire [C] =
      Inr ([\<lparr>Component.Id = 10, Name = Entry.Name C, TypeName = ''MeasureSheet'',
                     Dependencies = [], Dependents = []\<rparr>], [10 \<mapsto> 0])"
    by (simp add: wire_def AsComponent_def assms(1,2) r)
  have f: "ResolveRelations [C] =
      Inr ([\<lparr>Component.Id = 10, Name = Entry.Name C, TypeName = ''MeasureSheet'',
                     Dependencies = [], Dependents = []\<rparr>], Map.empty)"
    by (simp add: ResolveRelations_def w assms(1) isolated_def)
  have "Preprocess [C] = [C] \<or> Preprocess [C] = []"
    by (simp add: Preprocess_def)
  with e f d have 1: "\<exists>h. ResolveRelations (Preprocess [C, D]) = Inr (h, Map.empty)"
    by auto
  have 2: "Preprocess [C, D] = [C]" if "\<not> IsFolder C \<and> ParentId C \<notin> set IGNORE_WITH_PARENT_ID"
    unfolding d using that by (simp add: Preprocess_def r Contains_iff assms(2) MeasureSheet_def)
  from 1 2 w f show ?thesis by simp
qed

theorem prefilter_prune_interaction_witness:
  "Preprocess [sheet 10 ''10 C'' [11], sheet 11 ''11 D'' []] = [sheet 10 ''10 C'' [11]] \<and>
   ResolveRelations (Preprocess [sheet 10 ''10 C'' [11], sheet 11 ''11 D'' []]) =
     Inr ([\<lparr>Component.Id = 10, Name = ''10 C'', TypeName = ''MeasureSheet'',
            Dependencies = [], Dependents = []\<rparr>], Map.empty)"
proof -
  let ?C = "sheet 10 ''10 C'' [11]" and ?D = "sheet 11 ''11 D'' []"
  have h: "Entry.Id ?C = 10" "Entry.TypeName ?C = ''MeasureSheet''"
    "map DirectReference.Id (DirectReferences ?C) = [11]"
    "Entry.Id ?D = 11" "Entry.TypeName ?D = ''MeasureSheet''" "DirectReferences ?D = []"
    by (simp_all add: sheet_def)
  have g: "\<not> IsFolder ?C \<and> ParentId ?C \<notin> set IGNORE_WITH_PARENT_ID"
    by (simp add: sheet_def IGNORE_WITH_PARENT_ID_def)
  have n: "Entry.Name ?C = ''10 C''" by (simp add: sheet_def)
  from prefilter_prune_interaction[OF h, THEN conjunct2, rule_format, OF g]
  show ?thesis unfolding n by blast
qed

section \<open>Graphs built from preprocessed input\<close>

lemma Preprocess_set:
  "e \<in> set (Preprocess entries) \<Longrightarrow> Entry.TypeName e = MeasureSheet"
  by (simp add: Preprocess_def Preprocess_loop_filter)

lemma pipeline_types:
  assumes "ResolveRelations (Preprocess entries) = Inr (h, s)" and "a < length h"
  shows "Component.TypeName (h ! a) = MeasureSheet"
proof -
  note w = ResolveRelations_wire(1)[OF assms(1)]
  from assms(2) have "a < length (Preprocess entries)" using wire_length[OF w] by simp
  then have "Preprocess entries ! a \<in> set (Preprocess entries)" by simp
  then show ?thesis using wire_fields(3)[OF w assms(2)] by (simp add: Preprocess_set)
qed

lemma pruned_allocated:
  assumes "ResolveRelations entries = Inr (h, s)" and "s k = Some a"
  shows "a < length h"
proof -
  note w = ResolveRelations_wire(1)[OF assms(1)]
  from assms(2) have "snd (materialize entries [] Map.empty) k = Some a"
    by (simp add: pruned_sub(2)[OF w assms(1)])
  with wire_store_ok[OF w] show ?thesis by (simp add: store_ok_def)
qed

lemma reachable_in_map:
  assumes "ResolveRelations entries = Inr (h, s)"
  shows "reachable h a b \<Longrightarrow> \<exists>k. s k = Some a \<Longrightarrow> \<exists>j. s j = Some b"
proof (induction rule: reachable.induct)
  case (reachable_refl a)
  then show ?case .
next
  case (reachable_step a b p)
  then obtain j where "s j = Some b" by blast
  from pruned_closed[OF assms this reachable_step.hyps(2)] show ?case .
qed

text \<open>
  Claim C9. In the graph that \<open>ResolveRelations\<close> builds from the output of
  \<open>Preprocess\<close>, every component of the map, and every component reachable from it through
  \<open>Dependencies\<close> and \<open>Dependents\<close>, has the type name "MeasureSheet", and so has every
  entry of its two collections. The check of the type name in \<open>UpstreamDiagram\<close> and
  \<open>DownstreamDiagram\<close> therefore skips nothing: both views are the lines of the entries
  whose identifier differs from the component's own.
\<close>

theorem pipeline_measure_sheets:
  assumes "ResolveRelations (Preprocess entries) = Inr (h, s)"
    and "s k = Some a" and "reachable h a b"
  shows "Component.TypeName (h ! b) = ''MeasureSheet'' \<and>
         (\<forall>p\<in>set (Dependencies (h ! b)) \<union> set (Dependents (h ! b)).
            Component.TypeName (h ! p) = ''MeasureSheet'') \<and>
         UpstreamDiagram h (h ! b) =
           Join (map (\<lambda>p. Sprintf_edge (ShortName (h ! p)) (ShortName (h ! b)))
                  (filter (\<lambda>p. Component.Id (h ! p) \<noteq> Component.Id (h ! b))
                     (Dependencies (h ! b)))) newline \<and>
         DownstreamDiagram h (h ! b) =
           Join (map (\<lambda>p. Sprintf_edge (ShortName (h ! b)) (ShortName (h ! p)))
                  (filter (\<lambda>p. Component.Id (h ! p) \<noteq> Component.Id (h ! b))
                     (Dependents (h ! b)))) newline"
proof -
  from reachable_in_map[OF assms(1,3)] assms(2) obtain j where j: "s j = Some b" by blast
  have b: "Component.TypeName (h ! b) = MeasureSheet"
    by (rule pipeline_types[OF assms(1) pruned_allocated[OF assms(1) j]])
  have n: "Component.TypeName (h ! p) = MeasureSheet"
    if "p \<in> set (Dependencies (h ! b)) \<union> set (Dependents (h ! b))" for p
  proof -
    from pruned_closed[OF assms(1) j that] obtain i where "s i = Some p" by blast
    from pipeline_types[OF assms(1) pruned_allocated[OF assms(1) this]] show ?thesis .
  qed
  have f1: "filter (\<lambda>p. Component.TypeName (h ! p) = MeasureSheet \<and>
                        Component.Id (h ! p) \<noteq> Component.Id (h ! b)) (Dependencies (h ! b)) =
            filter (\<lambda>p. Component.Id (h ! p) \<noteq> Component.Id (h ! b)) (Dependencies (h ! b))"
    by (rule filter_cong) (simp_all add: n)
  have f2: "filter (\<lambda>p. Component.TypeName (h ! p) = MeasureSheet \<and>
                        Component.Id (h ! p) \<noteq> Component.Id (h ! b)) (Dependents (h ! b)) =
            filter (\<lambda>p. Component.Id (h ! p) \<noteq> Component.Id (h ! b)) (Dependents (h ! b))"
    by (rule filter_cong) (simp_all add: n)
  show ?thesis
  proof (intro conjI ballI)
    show "Component.TypeName (h ! b) = ''MeasureSheet''"
      using b by (simp add: MeasureSheet_def)
  next
    fix p assume "p \<in> set (Dependencies (h ! b)) \<union> set (Dependents (h ! b))"
    from n[OF this] show "Component.TypeName (h ! p) = ''MeasureSheet''"
      by (simp add: MeasureSheet_def)
  next
    show "UpstreamDiagram h (h ! b) =
           Join (map (\<lambda>p. Sprintf_edge (ShortName (h ! p)) (ShortName (h ! b)))
                  (filter (\<lambda>p. Component.Id (h ! p) \<noteq> Component.Id (h ! b))
                     (Dependencies (h ! b)))) newline"
      by (simp only: UpstreamDiagram_def Upstream_loop_filter f1 append_Nil)
    show "DownstreamDiagram h (h ! b) =
           Join (map (\<lambda>p. Sprintf_edge (ShortName (h ! b)) (ShortName (h ! p)))
                  (filter (\<lambda>p. Component.Id (h ! p) \<noteq> Component.Id (h ! b))
                     (Dependents (h ! b)))) newline"
      by (simp only: DownstreamDiagram_def Downstream_loop_filter f2 append_Nil)
  qed
qed

theorem pipeline_measure_sheets_witness:
  "ResolveRelations (Preprocess example_entries) = Inr (example_heap, [1 \<mapsto> 0, 2 \<mapsto> 1]) \<and>
   reachable example_heap 0 1 \<and>
   Component.TypeName (example_heap ! 1) = ''MeasureSheet'' \<and>
   UpstreamDiagram example_heap (example_heap ! 1) =
     Join [Sprintf_edge ''1.0'' ''2.0''] newline"
proof -
  have r: "ResolveRelations (Preprocess example_entries) = Inr (example_heap, [1 \<mapsto> 0, 2 \<mapsto> 1])"
    by (simp add: example_preprocess example_run)
  have k: "[1 \<mapsto> 0, 2 \<mapsto> 1] (1::int) = Some (0::nat)" by simp
  have "(1::nat) \<in> set (Dependencies (example_heap ! 0)) \<union> set (Dependents (example_heap ! 0))"
    by (simp add: example_heap_def)
  from reachable_step[OF reachable_refl this] have p: "reachable example_heap 0 1" .
  note T = pipeline_measure_sheets[OF r k p]
  have e: "Join (map (\<lambda>p. Sprintf_edge (ShortName (example_heap ! p)) (ShortName (example_heap ! 1)))
                  (filter (\<lambda>p. Component.Id (example_heap ! p) \<noteq> Component.Id (example_heap ! 1))
                     (Dependencies (example_heap ! 1)))) newline =
           Join [Sprintf_edge ''1.0'' ''2.0''] newline"
    by (simp add: example_heap_def ShortName_takeWhile is_code_char_def)
  from T e r p show ?thesis by simp
qed





lemma shared_run:
  "ResolveRelations (Preprocess shared_entries) = Inr (shared_heap, [1 \<mapsto> 0, 2 \<mapsto> 1])"
proof -
  have p: "Preprocess shared_entries = shared_entries"
    by (simp add: Preprocess_def shared_entries_def sheet_def IGNORE_WITH_PARENT_ID_def
        MeasureSheet_def)
  have w: "wire shared_entries = Inr (shared_heap, [1 \<mapsto> 0, 2 \<mapsto> 1])"
    by (simp add: wire_def shared_entries_def shared_heap_def sheet_def AsComponent_def
        AddDependency_def AddDependent_def)
  have "prune_loop shared_heap [1, 2] [1 \<mapsto> 0, 2 \<mapsto> 1] = [1 \<mapsto> 0, 2 \<mapsto> 1]"
    by (rule ext) (simp add: shared_heap_def isolated_def)
  moreover have "remdups (map Entry.Id shared_entries) = [1, 2]"
    by (simp add: shared_entries_def sheet_def)
  ultimately show ?thesis
    by (simp add: ResolveRelations_def w p)
qed

lemma loop_preprocess: "Preprocess loop_entries = loop_entries"
  by (simp add: Preprocess_def loop_entries_def sheet_def IGNORE_WITH_PARENT_ID_def
      MeasureSheet_def)

lemma loop_run:
  "ResolveRelations (Preprocess loop_entries) = Inr (loop_heap, [1 \<mapsto> 0])"
proof -
  have w: "wire loop_entries = Inr (loop_heap, [1 \<mapsto> 0])"
    by (simp add: wire_def loop_entries_def loop_heap_def sheet_def AsComponent_def
        AddDependency_def AddDependent_def)
  have "prune_loop loop_heap [1] [1 \<mapsto> 0] = [1 \<mapsto> 0]"
    by (rule ext) (simp add: loop_heap_def isolated_def)
  moreover have "remdups (map Entry.Id loop_entries) = [1]"
    by (simp add: loop_entries_def sheet_def)
  ultimately show ?thesis
    by (simp add: ResolveRelations_def w loop_preprocess)
qed

lemma self_only_views:
  assumes r: "ResolveRelations es = Inr (h, s)"
    and R: "R \<in> set es"
    and own: "\<forall>R'\<in>set es. Entry.Id R' = Entry.Id R \<longrightarrow>
               (\<forall>r\<in>set (DirectReferences R').
                  DirectReference.Id r \<in> Entry.Id ` set es \<longrightarrow>
                  DirectReference.Id r = Entry.Id R)"
    and some: "\<exists>r\<in>set (DirectReferences R). DirectReference.Id r = Entry.Id R"
  shows "\<exists>a. s (Entry.Id R) = Some a \<and> set (Dependencies (h ! a)) = {a} \<and>
              a \<in> set (Dependents (h ! a)) \<and>
              ((\<forall>R'\<in>set es. Entry.Id R' \<noteq> Entry.Id R \<longrightarrow>
                  (\<forall>r\<in>set (DirectReferences R'). DirectReference.Id r \<noteq> Entry.Id R))
               \<longrightarrow> set (Dependents (h ! a)) = {a})"
proof -
  let ?s0 = "snd (materialize es [] Map.empty)"
  note w = ResolveRelations_wire(1)[OF r]
  have d: "dom ?s0 = Entry.Id ` set es" by (rule wire_dom[OF w])
  with R obtain a where a: "?s0 (Entry.Id R) = Some a" by blast
  from some obtain r0 where r0: "r0 \<in> set (DirectReferences R)"
    "DirectReference.Id r0 = Entry.Id R" by blast
  have deps: "set (Dependencies (h ! a)) =
      {p. \<exists>R'\<in>set es. Entry.Id R' = Entry.Id R \<and>
            (\<exists>r\<in>set (DirectReferences R'). ?s0 (DirectReference.Id r) = Some p)}"
    by (auto simp add: wire_by_key(1)[OF w a] set_map_filter split: if_splits)
  have dpts: "set (Dependents (h ! a)) =
      {p. \<exists>R'\<in>set es. \<exists>r\<in>set (DirectReferences R').
            DirectReference.Id r = Entry.Id R \<and> ?s0 (Entry.Id R') = Some p}"
    by (auto simp add: wire_by_key(2)[OF w a] set_map_filter split: if_splits)
  have 1: "set (Dependencies (h ! a)) = {a}"
  proof (rule equalityI; rule subsetI)
    fix p assume "p \<in> set (Dependencies (h ! a))"
    then obtain R' r where R': "R' \<in> set es" "Entry.Id R' = Entry.Id R"
      "r \<in> set (DirectReferences R')" "?s0 (DirectReference.Id r) = Some p"
      unfolding deps by blast
    from R'(4) have "DirectReference.Id r \<in> dom ?s0" by blast
    with d own R'(1-3) have "DirectReference.Id r = Entry.Id R" by blast
    with R'(4) a show "p \<in> {a}" by simp
  next
    fix p assume "p \<in> {a}"
    then have "p = a" by simp
    moreover from r0(2) a have "?s0 (DirectReference.Id r0) = Some a" by simp
    ultimately show "p \<in> set (Dependencies (h ! a))" unfolding deps using R r0(1) by blast
  qed
  have 2: "a \<in> set (Dependents (h ! a))"
    unfolding dpts using R r0 a by blast
  then have "\<not> isolated (h ! a)" by (auto simp: isolated_def)
  with a have 3: "s (Entry.Id R) = Some a" by (simp add: pruned_sub(2)[OF w r])
  have 4: "set (Dependents (h ! a)) = {a}"
    if no: "\<forall>R'\<in>set es. Entry.Id R' \<noteq> Entry.Id R \<longrightarrow>
              (\<forall>r\<in>set (DirectReferences R'). DirectReference.Id r \<noteq> Entry.Id R)"
  proof (rule equalityI; rule subsetI)
    fix p assume "p \<in> set (Dependents (h ! a))"
    then obtain R' r where R': "R' \<in> set es" "r \<in> set (DirectReferences R')"
      "DirectReference.Id r = Entry.Id R" "?s0 (Entry.Id R') = Some p"
      unfolding dpts by blast
    with no have "Entry.Id R' = Entry.Id R" by blast
    with R'(4) a show "p \<in> {a}" by simp
  next
    fix p assume "p \<in> {a}"
    with 2 show "p \<in> set (Dependents (h ! a))" by simp
  qed
  from 1 2 3 4 show ?thesis by blast
qed

lemma Upstream_own:
  assumes "set (Dependencies c) \<subseteq> {a}" and "Component.Id (h ! a) = Component.Id c"
  shows "UpstreamDiagram h c = []"
proof -
  have "filter (\<lambda>p. Component.TypeName (h ! p) = MeasureSheet \<and>
                     Component.Id (h ! p) \<noteq> Component.Id c) (Dependencies c) = []"
    using assms by (auto simp add: filter_empty_conv)
  then show ?thesis by (simp add: UpstreamDiagram_def Upstream_loop_filter)
qed

lemma Downstream_own:
  assumes "set (Dependents c) \<subseteq> {a}" and "Component.Id (h ! a) = Component.Id c"
  shows "DownstreamDiagram h c = []"
proof -
  have "filter (\<lambda>p. Component.TypeName (h ! p) = MeasureSheet \<and>
                     Component.Id (h ! p) \<noteq> Component.Id c) (Dependents c) = []"
    using assms by (auto simp add: filter_empty_conv)
  then show ?thesis by (simp add: DownstreamDiagram_def Downstream_loop_filter)
qed

text \<open>
  Claim C10, as the code has it. Let \<open>R\<close> be an entry of the preprocessed input with a
  reference to its own identifier, such that the references of the entries with that
  identifier whose target is in the preprocessed input all have this identifier as
  target. Then the component of \<open>R\<close> is in the returned map, it occurs in its own
  \<open>Dependencies\<close> and in its own \<open>Dependents\<close>, its upstream view is empty and its full
  diagram is a newline followed by its downstream view. When no entry with another
  identifier refers to \<open>R\<close>, the full diagram is the single newline.
\<close>

theorem self_reference_diagram:
  assumes "ResolveRelations (Preprocess entries) = Inr (h, s)"
    and "R \<in> set (Preprocess entries)"
    and "\<forall>R'\<in>set (Preprocess entries). Entry.Id R' = Entry.Id R \<longrightarrow>
           (\<forall>r\<in>set (DirectReferences R').
              DirectReference.Id r \<in> Entry.Id ` set (Preprocess entries) \<longrightarrow>
              DirectReference.Id r = Entry.Id R)"
    and "\<exists>r\<in>set (DirectReferences R). DirectReference.Id r = Entry.Id R"
  shows "\<exists>a. s (Entry.Id R) = Some a \<and>
              a \<in> set (Dependencies (h ! a)) \<and> a \<in> set (Dependents (h ! a)) \<and>
              UpstreamDiagram h (h ! a) = [] \<and>
              FullDiagram h (h ! a) = [CHR 0x0A] @ DownstreamDiagram h (h ! a) \<and>
              ((\<forall>R'\<in>set (Preprocess entries). Entry.Id R' \<noteq> Entry.Id R \<longrightarrow>
                  (\<forall>r\<in>set (DirectReferences R'). DirectReference.Id r \<noteq> Entry.Id R))
               \<longrightarrow> FullDiagram h (h ! a) = [CHR 0x0A])"
proof -
  from self_only_views[OF assms]
  obtain a where a: "s (Entry.Id R) = Some a" "set (Dependencies (h ! a)) = {a}"
    "a \<in> set (Dependents (h ! a))"
    and o: "(\<forall>R'\<in>set (Preprocess entries). Entry.Id R' \<noteq> Entry.Id R \<longrightarrow>
                  (\<forall>r\<in>set (DirectReferences R'). DirectReference.Id r \<noteq> Entry.Id R))
               \<longrightarrow> set (Dependents (h ! a)) = {a}"
    by blast
  have u: "UpstreamDiagram h (h ! a) = []"
    by (rule Upstream_own[of _ a]) (simp_all add: a(2))
  have f: "FullDiagram h (h ! a) = [CHR 0x0A] @ DownstreamDiagram h (h ! a)"
    by (simp add: FullDiagram_def u newline_def)
  have g: "FullDiagram h (h ! a) = [CHR 0x0A]"
    if "\<forall>R'\<in>set (Preprocess entries). Entry.Id R' \<noteq> Entry.Id R \<longrightarrow>
                  (\<forall>r\<in>set (DirectReferences R'). DirectReference.Id r \<noteq> Entry.Id R)"
  proof -
    from o that have "set (Dependents (h ! a)) = {a}" by blast
    then have "DownstreamDiagram h (h ! a) = []"
      by (intro Downstream_own[of _ a]) simp_all
    with f show ?thesis by simp
  qed
  from a u f g show ?thesis by auto
qed

theorem self_reference_diagram_witness:
  "ResolveRelations (Preprocess loop_entries) = Inr (loop_heap, [1 \<mapsto> 0]) \<and>
   0 \<in> set (Dependencies (loop_heap ! 0)) \<and> 0 \<in> set (Dependents (loop_heap ! 0)) \<and>
   FullDiagram loop_heap (loop_heap ! 0) = [CHR 0x0A]"
proof -
  let ?R = "sheet 1 ''1.0 A'' [1, 5]"
  have es: "Preprocess loop_entries = [?R]"
    by (simp add: loop_preprocess) (simp add: loop_entries_def)
  have h2: "?R \<in> set (Preprocess loop_entries)" by (simp add: es)
  have h3: "\<forall>R'\<in>set (Preprocess loop_entries). Entry.Id R' = Entry.Id ?R \<longrightarrow>
           (\<forall>r\<in>set (DirectReferences R').
              DirectReference.Id r \<in> Entry.Id ` set (Preprocess loop_entries) \<longrightarrow>
              DirectReference.Id r = Entry.Id ?R)"
    by (simp add: es sheet_def)
  have h4: "\<exists>r\<in>set (DirectReferences ?R). DirectReference.Id r = Entry.Id ?R"
    by (simp add: sheet_def)
  have h5: "\<forall>R'\<in>set (Preprocess loop_entries). Entry.Id R' \<noteq> Entry.Id ?R \<longrightarrow>
                  (\<forall>r\<in>set (DirectReferences R'). DirectReference.Id r \<noteq> Entry.Id ?R)"
    by (simp add: es)
  have i: "Entry.Id ?R = 1" by (simp add: sheet_def)
  from self_reference_diagram[OF loop_run h2 h3 h4]
  obtain a where a: "[1 \<mapsto> 0] (Entry.Id ?R) = Some a"
    "a \<in> set (Dependencies (loop_heap ! a))" "a \<in> set (Dependents (loop_heap ! a))"
    and o: "(\<forall>R'\<in>set (Preprocess loop_entries). Entry.Id R' \<noteq> Entry.Id ?R \<longrightarrow>
                  (\<forall>r\<in>set (DirectReferences R'). DirectReference.Id r \<noteq> Entry.Id ?R))
               \<longrightarrow> FullDiagram loop_heap (loop_heap ! a) = [CHR 0x0A]"
    by blast
  from a(1) have a0: "a = 0" by (simp add: i)
  from o h5 have "FullDiagram loop_heap (loop_heap ! a) = [CHR 0x0A]" by blast
  with a a0 loop_run show ?thesis by simp
qed

text \<open>
  Without the last condition the full diagram need not be the single newline: in
  \<open>shared_entries\<close> the only reference of the first sheet is to itself, and its diagram
  has the edge to the second sheet, which refers to it.
\<close>

theorem self_reference_diagram_counterexample:
  "ResolveRelations (Preprocess shared_entries) = Inr (shared_heap, [1 \<mapsto> 0, 2 \<mapsto> 1]) \<and>
   sheet 1 ''1.0 A'' [1] \<in> set (Preprocess shared_entries) \<and>
   map DirectReference.Id (DirectReferences (sheet 1 ''1.0 A'' [1])) = [1] \<and>
   0 \<in> set (Dependencies (shared_heap ! 0)) \<and> 0 \<in> set (Dependents (shared_heap ! 0)) \<and>
   FullDiagram shared_heap (shared_heap ! 0) = [CHR 0x0A] @ Sprintf_edge ''1.0'' ''2.0'' \<and>
   FullDiagram shared_heap (shared_heap ! 0) \<noteq> [CHR 0x0A]"
proof -
  have p: "Preprocess shared_entries = shared_entries"
    by (simp add: Preprocess_def shared_entries_def sheet_def IGNORE_WITH_PARENT_ID_def
        MeasureSheet_def)
  have 1: "sheet 1 ''1.0 A'' [1] \<in> set (Preprocess shared_entries)"
    by (simp add: p) (simp add: shared_entries_def)
  have 2: "map DirectReference.Id (DirectReferences (sheet 1 ''1.0 A'' [1])) = [1]"
    by (simp add: sheet_def)
  have 3: "0 \<in> set (Dependencies (shared_heap ! 0)) \<and> 0 \<in> set (Dependents (shared_heap ! 0))"
    by (simp add: shared_heap_def)
  have 4: "FullDiagram shared_heap (shared_heap ! 0) = [CHR 0x0A] @ Sprintf_edge ''1.0'' ''2.0''"
    by (simp add: shared_heap_def FullDiagram_def UpstreamDiagram_def DownstreamDiagram_def
        MeasureSheet_def newline_def ShortName_takeWhile is_code_char_def)
  have 5: "FullDiagram shared_heap (shared_heap ! 0) \<noteq> [CHR 0x0A]"
    unfolding 4 by (simp add: Sprintf_edge_def)
  from shared_run 1 2 3 4 5 show ?thesis by blast
qed

end
